theory Spec2Isabelle
  imports Complex_Main
begin

section \<open>Graph model (pathFindingBase.h)\<close>

text \<open>
  The C++ \<open>double\<close> is modelled by \<open>real\<close>: exact arithmetic, no rounding, no NaN; the
  concrete graphs evaluated below use weights that a \<open>double\<close> holds exactly, except
  where said. Node indices (\<open>int\<close> in the source, always used as vector subscripts) are
  \<open>nat\<close>; the predecessor array keeps \<open>int\<close> entries because of its sentinels \<open>-1\<close> and
  \<open>-2\<close>. The engine's members are passed in and returned as a record; the line that
  \<open>ReconstructShortestPath\<close> writes to \<open>cout\<close> is returned as a value.
  Subscripts out of range are undefined behaviour in the source; the theorems below
  assume a square matrix and a source index below the node count wherever a
  subscript is evaluated.
\<close>

text \<open>\<open>INF\<close> of the source is \<open>INF_val\<close> here (\<open>INF\<close> is Isabelle's infimum binder).\<close>

definition INF_val :: real where
  "INF_val = 1000000"

definition NEG_INF :: real where
  "NEG_INF = - 1000000"

record GraphNode =
  Name :: string

record Graph =
  Matrix :: "real list list"
  Edges :: "(int \<times> int) list list"
  Nodes :: "GraphNode list"

text \<open>The precondition of every strategy: the matrix is square, of the size of \<open>Nodes\<close>.\<close>

definition square_matrix :: "Graph \<Rightarrow> bool" where
  "square_matrix graph =
     (length (Matrix graph) = length (Nodes graph) \<and>
      list_all (\<lambda>row. length row = length (Nodes graph)) (Matrix graph))"

section \<open>The engine (class BellmanFordAlgorithm, main.cpp)\<close>

record BellmanFordAlgorithm =
  shortestPath :: "real list"
  previousVertex :: "int list"
  solved :: bool

text \<open>A freshly constructed instance: both vectors empty, \<open>_solved = false\<close>.\<close>

definition new_engine :: BellmanFordAlgorithm where
  "new_engine = \<lparr>shortestPath = [], previousVertex = [], solved = False\<rparr>"

text \<open>\<open>std::vector::resize(n, v)\<close>: truncates, or appends copies of \<open>v\<close>; the
  elements already there keep their values.\<close>

definition resize :: "nat \<Rightarrow> 'a \<Rightarrow> 'a list \<Rightarrow> 'a list" where
  "resize n v xs = (if n \<le> length xs then take n xs else xs @ replicate (n - length xs) v)"

type_synonym relax_state = "bool \<times> real list \<times> int list"

subsection \<open>ContainsNegativeCycles\<close>

text \<open>The body of the two inner loops (lines 50-55): the test uses the matrix entry
  as it is, also when it is \<open>INF\<close>.\<close>

definition relax_A :: "Graph \<Rightarrow> nat \<Rightarrow> nat \<Rightarrow> relax_state \<Rightarrow> relax_state" where
  "relax_A graph from to = (\<lambda>(updated, sp, pv).
     if sp ! to > sp ! from + Matrix graph ! from ! to
     then (True, sp[to := sp ! from + Matrix graph ! from ! to], pv[to := int from])
     else (updated, sp, pv))"

definition pass_A :: "Graph \<Rightarrow> nat \<Rightarrow> relax_state \<Rightarrow> relax_state" where
  "pass_A graph n st = fold (\<lambda>from. fold (\<lambda>to. relax_A graph from to) [0..<n]) [0..<n] st"

text \<open>The \<open>k\<close> loop (lines 43-60) with \<open>k\<close> passes left: each pass resets \<open>updated\<close>,
  and a pass without an update breaks out of the loop.\<close>

fun passes_A :: "Graph \<Rightarrow> nat \<Rightarrow> nat \<Rightarrow> relax_state \<Rightarrow> relax_state" where
  "passes_A graph n 0 st = st"
| "passes_A graph n (Suc k) (updated, sp, pv) =
     (let st' = pass_A graph n (False, sp, pv)
      in if \<not> fst st' then st' else passes_A graph n k st')"

text \<open>The verification pass (lines 66-75) returns at the first pair that still
  admits improvement.\<close>

definition improvable_A :: "Graph \<Rightarrow> nat \<Rightarrow> real list \<Rightarrow> bool" where
  "improvable_A graph n sp =
     list_ex (\<lambda>from. list_ex (\<lambda>to. sp ! to > sp ! from + Matrix graph ! from ! to) [0..<n]) [0..<n]"

definition ContainsNegativeCycles ::
    "Graph \<Rightarrow> nat \<Rightarrow> BellmanFordAlgorithm \<Rightarrow> bool \<times> BellmanFordAlgorithm" where
  "ContainsNegativeCycles graph start e =
     (let verticesNumber = length (Nodes graph);
          sp0 = (resize verticesNumber INF_val (shortestPath e))[start := 0];
          pv0 = resize verticesNumber (- 1) (previousVertex e);
          (updated, sp, pv) = passes_A graph verticesNumber (verticesNumber - 1) (False, sp0, pv0)
      in if updated \<and> improvable_A graph verticesNumber sp
         then (True, e\<lparr>shortestPath := sp, previousVertex := pv\<rparr>)
         else (False, \<lparr>shortestPath = sp, previousVertex = pv, solved = True\<rparr>))"

subsection \<open>ContainsNegativeCycles_Sedgewick\<close>

text \<open>\<open>int new_distance = ...\<close> (line 111) converts the \<open>double\<close> sum to \<open>int\<close>:
  the fraction is discarded (rounding towards zero).\<close>

definition double_to_int :: "real \<Rightarrow> int" where
  "double_to_int x = (if 0 \<le> x then \<lfloor>x\<rfloor> else \<lceil>x\<rceil>)"

definition relax_B :: "Graph \<Rightarrow> nat \<Rightarrow> nat \<Rightarrow> nat \<Rightarrow> relax_state \<Rightarrow> relax_state" where
  "relax_B graph start from to = (\<lambda>(updated, sp, pv).
     if from \<noteq> start \<and> pv ! from = - 1 then (updated, sp, pv)
     else if Matrix graph ! from ! to = INF_val then (updated, sp, pv)
     else (let new_distance = double_to_int (sp ! from + Matrix graph ! from ! to)
           in if sp ! to > real_of_int new_distance
              then (True, sp[to := real_of_int new_distance], pv[to := int from])
              else (updated, sp, pv)))"

definition pass_B :: "Graph \<Rightarrow> nat \<Rightarrow> nat \<Rightarrow> relax_state \<Rightarrow> relax_state" where
  "pass_B graph n start st =
     fold (\<lambda>from. fold (\<lambda>to. relax_B graph start from to) [0..<n]) [0..<n] st"

text \<open>The \<open>i\<close> loop (lines 96-125) at index \<open>i\<close> with \<open>k\<close> iterations left; the first
  component tells whether the loop returned \<open>true\<close> from inside.\<close>

fun rounds_B :: "Graph \<Rightarrow> nat \<Rightarrow> nat \<Rightarrow> nat \<Rightarrow> nat \<Rightarrow> relax_state \<Rightarrow> bool \<times> relax_state" where
  "rounds_B graph n start i 0 st = (False, st)"
| "rounds_B graph n start i (Suc k) (updated, sp, pv) =
     (let st' = pass_B graph n start (False, sp, pv)
      in if i = n - 1 \<and> fst st' then (True, st') else rounds_B graph n start (Suc i) k st')"

definition ContainsNegativeCycles_Sedgewick ::
    "Graph \<Rightarrow> nat \<Rightarrow> BellmanFordAlgorithm \<Rightarrow> bool \<times> BellmanFordAlgorithm" where
  "ContainsNegativeCycles_Sedgewick graph start e =
     (let n = length (Nodes graph);
          sp0 = (resize n INF_val (shortestPath e))[start := 0];
          pv0 = resize n (- 1) (previousVertex e);
          (found, updated, sp, pv) = rounds_B graph n start 0 n (False, sp0, pv0)
      in if found
         then (True, e\<lparr>shortestPath := sp, previousVertex := pv\<rparr>)
         else (False, \<lparr>shortestPath = sp, previousVertex = pv, solved = True\<rparr>))"

subsection \<open>FindPathsAndNegativeCycles\<close>

definition relax_C :: "Graph \<Rightarrow> nat \<Rightarrow> nat \<Rightarrow> real list \<times> int list \<Rightarrow> real list \<times> int list" where
  "relax_C graph from to = (\<lambda>(sp, pv).
     if Matrix graph ! from ! to = INF_val then (sp, pv)
     else if sp ! to > sp ! from + Matrix graph ! from ! to
     then (sp[to := sp ! from + Matrix graph ! from ! to], pv[to := int from])
     else (sp, pv))"

definition mark_C :: "Graph \<Rightarrow> nat \<Rightarrow> nat \<Rightarrow> relax_state \<Rightarrow> relax_state" where
  "mark_C graph from to = (\<lambda>(negativeCycles, sp, pv).
     if Matrix graph ! from ! to = INF_val then (negativeCycles, sp, pv)
     else if sp ! to > sp ! from + Matrix graph ! from ! to
     then (True, sp[to := NEG_INF], pv[to := - 2])
     else (negativeCycles, sp, pv))"

definition pass_C :: "Graph \<Rightarrow> nat \<Rightarrow> real list \<times> int list \<Rightarrow> real list \<times> int list" where
  "pass_C graph n st = fold (\<lambda>from. fold (\<lambda>to. relax_C graph from to) [0..<n]) [0..<n] st"

definition mark_pass_C :: "Graph \<Rightarrow> nat \<Rightarrow> relax_state \<Rightarrow> relax_state" where
  "mark_pass_C graph n st = fold (\<lambda>from. fold (\<lambda>to. mark_C graph from to) [0..<n]) [0..<n] st"

text \<open>Two rounds of \<open>verticesNumber - 1\<close> passes each (lines 200-218 and 225-244);
  \<open>negativeCycles\<close> is set once and never reset.\<close>

definition FindPathsAndNegativeCycles ::
    "Graph \<Rightarrow> nat \<Rightarrow> BellmanFordAlgorithm \<Rightarrow> bool \<times> BellmanFordAlgorithm" where
  "FindPathsAndNegativeCycles graph start e =
     (let verticesNumber = length (Nodes graph);
          sp0 = (resize verticesNumber INF_val (shortestPath e))[start := 0];
          pv0 = resize verticesNumber (- 1) (previousVertex e);
          st1 = fold (\<lambda>k. pass_C graph verticesNumber) [0..<verticesNumber - 1] (sp0, pv0);
          (negativeCycles, sp, pv) =
             fold (\<lambda>k. mark_pass_C graph verticesNumber) [0..<verticesNumber - 1] (False, st1)
      in (negativeCycles, \<lparr>shortestPath = sp, previousVertex = pv, solved = True\<rparr>))"

subsection \<open>FindPathOnly\<close>

text \<open>\<open>_QueueGet\<close>: the front element, and the queue without it.\<close>

definition QueueGet :: "nat list \<Rightarrow> nat \<times> nat list" where
  "QueueGet q = (hd q, tl q)"

datatype queue_round = Round_limit | Next_node nat nat "nat list"

text \<open>The inner \<open>while\<close> (lines 154-162), entered with the element just taken from the
  queue: as long as that element is the marker \<open>n\<close>, count a round (\<open>z++ > n\<close> compares
  the old value), push the marker again and take the next element. \<open>Round_limit\<close> is the
  \<open>return\<close> of line 159; \<open>Next_node from z q\<close> leaves the loop with a node.\<close>

function skip_rounds :: "nat \<Rightarrow> nat \<Rightarrow> nat \<times> nat list \<Rightarrow> queue_round" where
  "skip_rounds n z (v, q) =
     (if v = n
      then (if z > n then Round_limit else skip_rounds n (Suc z) (QueueGet (q @ [n])))
      else Next_node v z q)"
  by pat_completeness auto
termination
  by (relation "measure (\<lambda>(n, z, vq). Suc n - z)") auto

definition relax_D ::
    "Graph \<Rightarrow> nat \<Rightarrow> nat \<Rightarrow> real list \<times> int list \<times> nat list \<Rightarrow> real list \<times> int list \<times> nat list" where
  "relax_D graph from to = (\<lambda>(sp, pv, q).
     if Matrix graph ! from ! to = INF_val then (sp, pv, q)
     else (let new_distance = sp ! from + Matrix graph ! from ! to
           in if sp ! to > new_distance
              then (sp[to := new_distance], pv[to := int from], q @ [to])
              else (sp, pv, q)))"

text \<open>The outer \<open>while (!q.empty())\<close>. The result carries whether \<open>_solved = true\<close>
  (line 158) was executed; \<open>None\<close> stands for a loop that never ends.\<close>

partial_function (option) worklist_D ::
    "Graph \<Rightarrow> nat \<Rightarrow> real list \<Rightarrow> int list \<Rightarrow> nat \<Rightarrow> nat list \<Rightarrow> (real list \<times> int list \<times> bool) option" where
  "worklist_D graph n sp pv z q =
     (if q = [] then Some (sp, pv, False)
      else (case skip_rounds n z (QueueGet q) of
              Round_limit \<Rightarrow> Some (sp, pv, True)
            | Next_node from z' q' \<Rightarrow>
                (case fold (\<lambda>to. relax_D graph from to) [0..<length (Nodes graph)] (sp, pv, q') of
                   (sp', pv', q'') \<Rightarrow> worklist_D graph n sp' pv' z' q'')))"

declare worklist_D.simps [code]

definition FindPathOnly :: "Graph \<Rightarrow> nat \<Rightarrow> BellmanFordAlgorithm \<Rightarrow> BellmanFordAlgorithm option" where
  "FindPathOnly graph start e =
     (let n = length (Nodes graph);
          sp0 = (resize n INF_val (shortestPath e))[start := 0];
          pv0 = resize n (- 1) (previousVertex e)
      in (case worklist_D graph n sp0 pv0 0 [start, n] of
            None \<Rightarrow> None
          | Some (sp, pv, set_solved) \<Rightarrow>
              Some \<lparr>shortestPath = sp, previousVertex = pv, solved = (set_solved \<or> solved e)\<rparr>))"

subsection \<open>ReconstructShortestPath\<close>

text \<open>What the function writes to \<open>cout\<close>: one of three lines.\<close>

datatype report =
  Not_solved
| Infinite_paths nat nat
| Path_line nat nat "(nat \<times> string) list"

text \<open>The \<open>for\<close> loop of line 262. Nothing bounds it: on a cyclic predecessor array it
  pushes nodes for ever, which is the value \<open>None\<close>.\<close>

partial_function (option) walk_back :: "int list \<Rightarrow> nat \<Rightarrow> nat list \<Rightarrow> nat list option" where
  "walk_back pv at_node lst =
     (if pv ! at_node \<noteq> - 1 \<and> pv ! at_node \<noteq> - 2
      then walk_back pv (nat (pv ! at_node)) (lst @ [at_node])
      else Some lst)"

declare walk_back.simps [code]

definition ReconstructShortestPath ::
    "Graph \<Rightarrow> BellmanFordAlgorithm \<Rightarrow> nat \<Rightarrow> nat \<Rightarrow> (report \<times> nat list) option" where
  "ReconstructShortestPath graph e start finish =
     (if solved e
      then (if shortestPath e ! finish = NEG_INF
            then Some (Infinite_paths start finish, [])
            else (case walk_back (previousVertex e) finish [] of
                    None \<Rightarrow> None
                  | Some lst \<Rightarrow>
                      (let path = rev (lst @ [start])
                       in Some (Path_line start finish
                                  (map (\<lambda>i. (i, Name (Nodes graph ! i))) path), path))))
      else Some (Not_solved, []))"

section \<open>Graphs used below\<close>

definition graph_of :: "string list \<Rightarrow> real list list \<Rightarrow> Graph" where
  "graph_of names M = \<lparr>Matrix = M, Edges = [], Nodes = map (\<lambda>s. \<lparr>Name = s\<rparr>) names\<rparr>"

text \<open>One edge \<open>0 \<rightarrow> 1\<close> of weight one half; no cycle.\<close>

definition half_edge :: Graph where
  "half_edge = graph_of [''USD'', ''CHF''] [[0, 1/2], [INF_val, 0]]"

text \<open>The second graph of \<open>runAllNoNegativeCyclesTests\<close> (main.cpp, lines 388-393),
  which the driver runs from node 4 with all four strategies.\<close>

definition sedgewick_graph :: Graph where
  "sedgewick_graph = graph_of [''USD'', ''CHF'', ''YEN'', ''GBP'', ''CNY'', ''EUR'']
     [[0,       41/100,     INF_val, INF_val, INF_val, 29/100],
      [INF_val, 0,          51/100,  INF_val, 32/100,  INF_val],
      [INF_val, INF_val,    0,       50/100,  INF_val, INF_val],
      [45/100,  INF_val,    INF_val, 0,       INF_val, - (38/100)],
      [INF_val, INF_val,    32/100,  36/100,  0,       INF_val],
      [INF_val, - (29/100), INF_val, INF_val, 21/100,  0]]"

text \<open>The first graph of \<open>runAllNoNegativeCyclesTests\<close> (lines 361-365): no negative cycle.\<close>

definition currency_graph :: Graph where
  "currency_graph = graph_of [''USD'', ''CHF'', ''YEN'', ''GBP'', ''CNY'']
     [[0,       6,       7,       INF_val, INF_val],
      [INF_val, 0,       8,       - 4,     5],
      [INF_val, INF_val, 0,       9,       - 3],
      [INF_val, INF_val, INF_val, 0,       7],
      [INF_val, - 2,     INF_val, INF_val, 0]]"

text \<open>The cycle \<open>0 \<rightarrow> 1 \<rightarrow> 0\<close> of weight \<open>1/4 - 1/2\<close>.\<close>

definition quarter_cycle :: Graph where
  "quarter_cycle = graph_of [''USD'', ''CHF''] [[0, 1/4], [- (1/2), 0]]"

text \<open>The cycle \<open>1 \<rightarrow> 2 \<rightarrow> 1\<close> of weight \<open>-2\<close>; no edge leaves node 0.\<close>

definition far_cycle :: Graph where
  "far_cycle = graph_of [''USD'', ''CHF'', ''YEN'']
     [[0, INF_val, INF_val], [INF_val, 0, - 1], [INF_val, - 1, 0]]"

text \<open>Node 2 carries a loop of weight \<open>-1\<close>; it is entered from node 0 and leads back to
  node 0 through node 1.\<close>

definition loop_back :: Graph where
  "loop_back = graph_of [''USD'', ''CHF'', ''YEN'']
     [[0, - 100, 0], [200, 0, INF_val], [INF_val, 0, - 1]]"

text \<open>The only edge is \<open>1 \<rightarrow> 2\<close>, of weight \<open>-1\<close>: nothing is reachable from node 0.\<close>

definition lone_edge :: Graph where
  "lone_edge = graph_of [''USD'', ''CHF'', ''YEN'']
     [[0, INF_val, INF_val], [INF_val, 0, - 1], [INF_val, INF_val, 0]]"

text \<open>Node 0 leads to the cycle \<open>1 \<rightarrow> 2 \<rightarrow> 1\<close> of weight \<open>-2\<close>.\<close>

definition tail_cycle :: Graph where
  "tail_cycle = graph_of [''USD'', ''CHF'', ''YEN'']
     [[0, 1, INF_val], [INF_val, 0, - 1], [INF_val, - 1, 0]]"

text \<open>The cycle \<open>0 \<rightarrow> 1 \<rightarrow> 0\<close> of weight \<open>1 - 2\<close>, through the source.\<close>

definition two_cycle :: Graph where
  "two_cycle = graph_of [''USD'', ''CHF''] [[0, 1], [- 2, 0]]"

text \<open>The cycle \<open>0 \<rightarrow> 1 \<rightarrow> 2 \<rightarrow> 0\<close> of weight \<open>3/4 + 3/4 - 1\<close>: no negative cycle.\<close>

definition rounding_loop :: Graph where
  "rounding_loop = graph_of [''USD'', ''CHF'', ''YEN'']
     [[0, 3/4, INF_val], [INF_val, 0, 3/4], [- 1, INF_val, 0]]"

section \<open>Notions used in the proofs\<close>

text \<open>The number of queue elements in front of the first round marker \<open>n\<close>.\<close>

definition nodes_before_marker :: "nat \<Rightarrow> nat list \<Rightarrow> nat" where
  "nodes_before_marker n q = length (takeWhile (\<lambda>v. v \<noteq> n) q)"

text \<open>The entry of the source \<open>s\<close> in the two arrays: its distance is never above 0, and
  as long as it is 0 its predecessor is still \<open>-1\<close>.\<close>

definition source_kept :: "nat \<Rightarrow> real list \<times> int list \<Rightarrow> bool" where
  "source_kept s st =
     (s < length (fst st) \<and> s < length (snd st) \<and> fst st ! s \<le> 0 \<and>
      (fst st ! s = 0 \<longrightarrow> snd st ! s = - 1))"

text \<open>No existing edge admits improvement: the test of lines 166-173, 206-211 and
  231-236 fails for every pair.\<close>

definition settled :: "Graph \<Rightarrow> nat \<Rightarrow> real list \<Rightarrow> bool" where
  "settled graph n sp =
     list_all (\<lambda>u. list_all (\<lambda>v. Matrix graph ! u ! v = INF_val \<or>
                                  \<not> sp ! v > sp ! u + Matrix graph ! u ! v) [0..<n]) [0..<n]"

text \<open>Both arrays have \<open>n\<close> entries.\<close>

definition sized :: "nat \<Rightarrow> real list \<times> int list \<Rightarrow> bool" where
  "sized n st = (length (fst st) = n \<and> length (snd st) = n)"

section \<open>General lemmas\<close>

lemma fold_preserves:
  assumes "\<And>x s. x \<in> set xs \<Longrightarrow> P s \<Longrightarrow> P (f x s)" and "P s"
  shows "P (fold f xs s)"
  using assms by (induction xs arbitrary: s) auto

lemma resize_length: "length (resize n v xs) = n"
  by (simp add: resize_def)

lemma set_resize: "set (resize n v xs) \<subseteq> insert v (set xs)"
  by (auto simp: resize_def dest: in_set_takeD)

lemma fold_fixed:
  assumes "\<And>x. x \<in> set xs \<Longrightarrow> f x s = s"
  shows "fold f xs s = s"
  using assms by (induction xs) auto

text \<open>A relaxation step either leaves the state alone or sets the flag, and never
  clears it; so a pass that ends with the flag clear has changed nothing.\<close>

lemma flag_fold_sticky:
  assumes "\<And>x st. fst st \<Longrightarrow> fst (f x st)"
  shows "fst st \<Longrightarrow> fst (fold f xs st)"
  using assms by (induction xs arbitrary: st) auto

lemma flag_fold_quiet:
  assumes sticky: "\<And>x st. fst st \<Longrightarrow> fst (f x st)"
    and quiet: "\<And>x st. \<not> fst (f x st) \<Longrightarrow> f x st = st"
  shows "\<not> fst (fold f xs st) \<Longrightarrow> fold f xs st = st \<and> (\<forall>x\<in>set xs. f x st = st)"
proof (induction xs arbitrary: st)
  case Nil
  show ?case by simp
next
  case (Cons x xs)
  have "\<not> fst (f x st)"
  proof
    assume "fst (f x st)"
    then have "fst (fold f xs (f x st))" using sticky by (rule flag_fold_sticky [rotated])
    with Cons.prems show False by simp
  qed
  then have "f x st = st" by (rule quiet)
  with Cons show ?case by simp
qed

lemma flag_pass_sticky:
  assumes "\<And>u v st. fst st \<Longrightarrow> fst (f u v st)"
  shows "fst st \<Longrightarrow> fst (fold (\<lambda>u. fold (f u) vs) us st)"
  by (rule flag_fold_sticky, rule flag_fold_sticky) (rule assms)

lemma flag_pass_quiet:
  assumes sticky: "\<And>u v st. fst st \<Longrightarrow> fst (f u v st)"
    and quiet: "\<And>u v st. \<not> fst (f u v st) \<Longrightarrow> f u v st = st"
    and unset: "\<not> fst (fold (\<lambda>u. fold (f u) vs) us st)"
  shows "fold (\<lambda>u. fold (f u) vs) us st = st \<and> (\<forall>u\<in>set us. \<forall>v\<in>set vs. f u v st = st)"
proof -
  have row_sticky: "fst st \<Longrightarrow> fst (fold (f u) vs st)" for u st
    by (rule flag_fold_sticky) (rule sticky)
  have row_quiet: "fold (f u) vs st = st \<and> (\<forall>v\<in>set vs. f u v st = st)"
    if "\<not> fst (fold (f u) vs st)" for u st
    using sticky quiet that by (rule flag_fold_quiet)
  have rows: "fold (\<lambda>u. fold (f u) vs) us st = st \<and> (\<forall>u\<in>set us. fold (f u) vs st = st)"
  proof (rule flag_fold_quiet)
    show "fst st \<Longrightarrow> fst (fold (f u) vs st)" for u st by (rule row_sticky)
    show "\<not> fst (fold (f u) vs st) \<Longrightarrow> fold (f u) vs st = st" for u st
      using row_quiet by blast
    show "\<not> fst (fold (\<lambda>u. fold (f u) vs) us st)" by (rule unset)
  qed
  with unset have "\<not> fst st" by simp
  have "f u v st = st" if "u \<in> set us" "v \<in> set vs" for u v
  proof -
    from rows that have "fold (f u) vs st = st" by simp
    with \<open>\<not> fst st\<close> have "\<not> fst (fold (f u) vs st)" by simp
    from row_quiet [OF this] that show ?thesis by simp
  qed
  with rows show ?thesis by simp
qed

lemma sized_start: "sized n ((resize n a xs)[i := b], resize n c ys)"
  by (simp add: sized_def resize_length)

lemma resize_same: "length xs = n \<Longrightarrow> resize n v xs = xs"
  by (simp add: resize_def)

section \<open>Path reconstruction\<close>

text \<open>
  C5. When the engine is solved and the distance of \<open>finish\<close> is the negative-infinity
  sentinel, \<open>ReconstructShortestPath\<close> prints the "infinite number of shortest paths"
  line and returns the empty sequence.
\<close>

theorem reconstruct_negative_infinity:
  assumes "solved e"
    and "finish < length (shortestPath e)"
    and "shortestPath e ! finish = NEG_INF"
  shows "ReconstructShortestPath graph e start finish = Some (Infinite_paths start finish, [])"
  using assms by (simp add: ReconstructShortestPath_def)

theorem reconstruct_negative_infinity_witness:
  "ReconstructShortestPath far_cycle
     \<lparr>shortestPath = [0, NEG_INF, NEG_INF], previousVertex = [- 1, - 2, - 2], solved = True\<rparr> 0 2
   = Some (Infinite_paths 0 2, [])"
  using reconstruct_negative_infinity
    [of "\<lparr>shortestPath = [0, NEG_INF, NEG_INF], previousVertex = [- 1, - 2, - 2], solved = True\<rparr>"
        2 far_cycle 0]
  by simp

text \<open>
  C6. On an engine whose \<open>solved\<close> flag is false, \<open>ReconstructShortestPath\<close> prints
  "Not solved." and returns the empty sequence, whatever the two arrays hold (they may
  be empty or stale: the result does not depend on them) and whatever \<open>start\<close> and
  \<open>finish\<close> are.
\<close>

theorem reconstruct_not_solved:
  assumes "\<not> solved e"
  shows "ReconstructShortestPath graph e start finish = Some (Not_solved, [])"
  using assms by (simp add: ReconstructShortestPath_def)

theorem reconstruct_not_solved_witness:
  "ReconstructShortestPath currency_graph new_engine 0 3 = Some (Not_solved, [])"
  using reconstruct_not_solved [of new_engine currency_graph 0 3]
  by (simp add: new_engine_def)

section \<open>Where the strategies part ways\<close>

text \<open>
  C1. The four strategies do not compute the same distances on a graph without a
  negative cycle. On the single edge \<open>0 \<rightarrow> 1\<close> of weight \<open>1/2\<close>,
  \<open>ContainsNegativeCycles\<close>, \<open>FindPathsAndNegativeCycles\<close> and \<open>FindPathOnly\<close> give node 1
  the distance \<open>1/2\<close>, and \<open>ContainsNegativeCycles_Sedgewick\<close>, whose \<open>new_distance\<close> is
  an \<open>int\<close>, gives it \<open>0\<close>.
\<close>

theorem strategies_disagree_on_half_edge:
  "ContainsNegativeCycles half_edge 0 new_engine =
     (False, \<lparr>shortestPath = [0, 1/2], previousVertex = [- 1, 0], solved = True\<rparr>) \<and>
   ContainsNegativeCycles_Sedgewick half_edge 0 new_engine =
     (False, \<lparr>shortestPath = [0, 0], previousVertex = [- 1, 0], solved = True\<rparr>) \<and>
   FindPathsAndNegativeCycles half_edge 0 new_engine =
     (False, \<lparr>shortestPath = [0, 1/2], previousVertex = [- 1, 0], solved = True\<rparr>) \<and>
   FindPathOnly half_edge 0 new_engine =
     Some \<lparr>shortestPath = [0, 1/2], previousVertex = [- 1, 0], solved = True\<rparr>"
  by code_simp

text \<open>The same on the driver's own test graph: from node 4 the Sedgewick variant ends
  with every distance 0 and reconstructs the path to node 2 as \<open>[4, 2]\<close>, where the
  other strategies (and the expected output written in main.cpp) have \<open>[4, 3, 5, 1, 2]\<close>.
  The weights of this graph are decimal fractions, which a \<open>double\<close> only approximates:
  the distances of the first lemma are those of exact arithmetic; the zeros of the
  second are the same in \<open>double\<close>, every sum cut being below 1 in absolute value.\<close>

lemma sedgewick_graph_first_strategy:
  "ContainsNegativeCycles sedgewick_graph 4 new_engine =
     (False, \<lparr>shortestPath = [81/100, - (31/100), 1/5, 9/25, 0, - (1/50)],
               previousVertex = [3, 5, 1, 4, - 1, 3], solved = True\<rparr>)"
  by code_simp

lemma sedgewick_graph_truncated:
  "ContainsNegativeCycles_Sedgewick sedgewick_graph 4 new_engine =
     (False, \<lparr>shortestPath = [0, 0, 0, 0, 0, 0],
               previousVertex = [3, 5, 4, 4, - 1, 3], solved = True\<rparr>)"
  by code_simp

lemma sedgewick_graph_paths:
  "map_option snd (ReconstructShortestPath sedgewick_graph
      \<lparr>shortestPath = [0, 0, 0, 0, 0, 0], previousVertex = [3, 5, 4, 4, - 1, 3], solved = True\<rparr> 4 2)
     = Some [4, 2] \<and>
   map_option snd (ReconstructShortestPath sedgewick_graph
      \<lparr>shortestPath = [81/100, - (31/100), 1/5, 9/25, 0, - (1/50)],
        previousVertex = [3, 5, 1, 4, - 1, 3], solved = True\<rparr> 4 2)
     = Some [4, 3, 5, 1, 2]"
  by code_simp

text \<open>
  C2. A negative cycle that the source lies on is not reported by
  \<open>ContainsNegativeCycles_Sedgewick\<close>: on the cycle \<open>0 \<rightarrow> 1 \<rightarrow> 0\<close> with weights \<open>1/4\<close> and
  \<open>-1/2\<close> every sum is cut to \<open>0\<close>, no pass after the first updates, and the function
  returns \<open>false\<close> with the engine solved.
\<close>

theorem sedgewick_misses_negative_cycle:
  "Matrix quarter_cycle ! 0 ! 1 + Matrix quarter_cycle ! 1 ! 0 < 0 \<and>
   ContainsNegativeCycles_Sedgewick quarter_cycle 0 new_engine =
     (False, \<lparr>shortestPath = [0, 0], previousVertex = [- 1, 0], solved = True\<rparr>)"
  by code_simp

text \<open>
  C3. The nodes that \<open>FindPathsAndNegativeCycles\<close> leaves at \<open>NEG_INF\<close> are not the
  nodes reachable from the source through a negative cycle. In \<open>far_cycle\<close> no edge
  leaves the source, and nodes 1 and 2 are marked. In \<open>loop_back\<close> the source reaches
  the negative loop at node 2 and is reached from it through node 1, and the source
  keeps distance 0.
\<close>

theorem cycle_marking_misses_the_set:
  "Matrix far_cycle ! 0 ! 1 = INF_val \<and> Matrix far_cycle ! 0 ! 2 = INF_val \<and>
   FindPathsAndNegativeCycles far_cycle 0 new_engine =
     (True, \<lparr>shortestPath = [0, NEG_INF, NEG_INF], previousVertex = [- 1, - 2, - 2],
              solved = True\<rparr>) \<and>
   Matrix loop_back ! 0 ! 2 = 0 \<and> Matrix loop_back ! 2 ! 2 = - 1 \<and>
   Matrix loop_back ! 2 ! 1 = 0 \<and> Matrix loop_back ! 1 ! 0 = 200 \<and>
   FindPathsAndNegativeCycles loop_back 0 new_engine =
     (True, \<lparr>shortestPath = [0, NEG_INF, NEG_INF], previousVertex = [- 1, - 2, - 2],
              solved = True\<rparr>)"
  by code_simp

text \<open>
  C8. A node that the source cannot reach does not keep the predecessor \<open>-1\<close> under
  \<open>ContainsNegativeCycles\<close>, and the reconstructed sequence ends at it. In \<open>lone_edge\<close>
  (no negative cycle, nothing reachable from node 0) node 2 gets the distance
  \<open>INF - 1\<close> and the predecessor 1, and the path from 0 to 2 comes out as \<open>[0, 2]\<close>.
  \<open>FindPathsAndNegativeCycles\<close> does the same.
\<close>

theorem unreachable_node_gets_a_path:
  "ContainsNegativeCycles lone_edge 0 new_engine =
     (False, \<lparr>shortestPath = [0, 1000000, 999999], previousVertex = [- 1, - 1, 1],
               solved = True\<rparr>) \<and>
   ReconstructShortestPath lone_edge
     \<lparr>shortestPath = [0, 1000000, 999999], previousVertex = [- 1, - 1, 1], solved = True\<rparr> 0 2
     = Some (Path_line 0 2 [(0, ''USD''), (2, ''YEN'')], [0, 2]) \<and>
   FindPathsAndNegativeCycles lone_edge 0 new_engine =
     (False, \<lparr>shortestPath = [0, 1000000, 999999], previousVertex = [- 1, - 1, 1],
               solved = True\<rparr>)"
  by code_simp

section \<open>The verification pass of ContainsNegativeCycles\<close>

text \<open>The relaxation passes write only node indices into the predecessor array.\<close>

lemma relax_A_no_sentinel:
  "- 2 \<notin> set (snd (snd st)) \<Longrightarrow> - 2 \<notin> set (snd (snd (relax_A graph u v st)))"
  using set_update_subset_insert [of "snd (snd st)" v "int u"]
  by (cases st) (auto simp: relax_A_def)

lemma pass_A_no_sentinel:
  "- 2 \<notin> set (snd (snd st)) \<Longrightarrow> - 2 \<notin> set (snd (snd (pass_A graph n st)))"
  unfolding pass_A_def
  by (intro fold_preserves [where P = "\<lambda>st. - 2 \<notin> set (snd (snd st))"] relax_A_no_sentinel)

lemma passes_A_no_sentinel:
  "- 2 \<notin> set (snd (snd st)) \<Longrightarrow> - 2 \<notin> set (snd (snd (passes_A graph n k st)))"
proof (induction graph n k st rule: passes_A.induct)
  case (1 graph n st)
  then show ?case by simp
next
  case (2 graph n k updated sp pv)
  have "- 2 \<notin> set (snd (snd (pass_A graph n (False, sp, pv))))"
    using "2.prems" by (intro pass_A_no_sentinel) simp
  with "2.IH" show ?case by (simp add: Let_def)
qed

lemma improvable_A_iff:
  "improvable_A graph n sp \<longleftrightarrow>
     (\<exists>u<n. \<exists>v<n. sp ! v > sp ! u + Matrix graph ! u ! v)"
  by (fastforce simp: improvable_A_def list_ex_iff)

text \<open>The claim C4 as stated asks for \<open>_solved = true\<close> when the verification pass finds
  an edge that still admits improvement. On the cycle \<open>0 \<rightarrow> 1 \<rightarrow> 0\<close> the function returns
  \<open>true\<close> from line 72, before line 78 is reached, and a fresh engine stays unsolved.\<close>

theorem cycle_found_leaves_unsolved:
  "ContainsNegativeCycles two_cycle 0 new_engine =
     (True, \<lparr>shortestPath = [- 1, 1], previousVertex = [1, 0], solved = False\<rparr>)"
  by code_simp

text \<open>
  C4 (amended). When the relaxation passes of \<open>ContainsNegativeCycles\<close> end with
  \<open>updated\<close> set and some pair \<open>(from, to)\<close> still admits improvement, the function
  returns \<open>true\<close>, leaves the \<open>solved\<close> flag as it was (false on a fresh engine), and
  leaves the two arrays as the relaxation passes produced them: the verification pass
  writes nothing, and no predecessor is the cycle sentinel \<open>-2\<close>.
\<close>

theorem verification_pass_reports_cycle:
  assumes "square_matrix graph" and "start < length (Nodes graph)"
    and "- 2 \<notin> set (previousVertex e)"
    and "passes_A graph (length (Nodes graph)) (length (Nodes graph) - 1)
           (False, (resize (length (Nodes graph)) INF_val (shortestPath e))[start := 0],
                   resize (length (Nodes graph)) (- 1) (previousVertex e)) = (True, sp, pv)"
    and "from < length (Nodes graph)" and "to < length (Nodes graph)"
    and "sp ! to > sp ! from + Matrix graph ! from ! to"
  shows "ContainsNegativeCycles graph start e =
           (True, e\<lparr>shortestPath := sp, previousVertex := pv\<rparr>) \<and> - 2 \<notin> set pv"
proof -
  let ?n = "length (Nodes graph)"
  let ?pv0 = "resize ?n (- 1) (previousVertex e)"
  let ?sp0 = "(resize ?n INF_val (shortestPath e))[start := 0]"
  have "improvable_A graph ?n sp"
    using assms(5-7) by (auto simp: improvable_A_iff)
  then have "ContainsNegativeCycles graph start e =
           (True, e\<lparr>shortestPath := sp, previousVertex := pv\<rparr>)"
    using assms(4) by (simp add: ContainsNegativeCycles_def Let_def)
  moreover have "- 2 \<notin> set ?pv0"
    using assms(3) set_resize [of ?n "- 1" "previousVertex e"] by auto
  then have "- 2 \<notin> set (snd (snd (passes_A graph ?n (?n - 1) (False, ?sp0, ?pv0))))"
    by (intro passes_A_no_sentinel) simp
  then have "- 2 \<notin> set pv" using assms(4) by simp
  ultimately show ?thesis by simp
qed

theorem verification_pass_reports_cycle_witness:
  "ContainsNegativeCycles two_cycle 0 new_engine =
     (True, \<lparr>shortestPath = [- 1, 1], previousVertex = [1, 0], solved = False\<rparr>) \<and>
   - 2 \<notin> set [1, 0 :: int]"
proof -
  have 1: "square_matrix two_cycle" by code_simp
  have 2: "0 < length (Nodes two_cycle)" by code_simp
  have 3: "- 2 \<notin> set (previousVertex new_engine)" by code_simp
  have 4: "passes_A two_cycle (length (Nodes two_cycle)) (length (Nodes two_cycle) - 1)
           (False, (resize (length (Nodes two_cycle)) INF_val (shortestPath new_engine))[0 := 0],
                   resize (length (Nodes two_cycle)) (- 1) (previousVertex new_engine))
             = (True, [- 1, 1], [1, 0])" by code_simp
  have 5: "1 < length (Nodes two_cycle)" by code_simp
  have 6: "[- 1, 1 :: real] ! 1 > [- 1, 1] ! 0 + Matrix two_cycle ! 0 ! 1" by code_simp
  from verification_pass_reports_cycle [OF 1 2 3 4 2 5 6]
  show ?thesis by (simp add: new_engine_def)
qed

section \<open>Termination of FindPathOnly\<close>

lemma relax_D_appends:
  "\<exists>sp' pv' ps. fold (relax_D graph from) ts (sp, pv, q) = (sp', pv', q @ ps)"
proof (induction ts arbitrary: sp pv q)
  case Nil
  show ?case by simp
next
  case (Cons t ts)
  obtain sp1 pv1 q1 where step: "relax_D graph from t (sp, pv, q) = (sp1, pv1, q1)"
    by (cases "relax_D graph from t (sp, pv, q)") auto
  then have "q1 = q \<or> q1 = q @ [t]"
    by (auto simp: relax_D_def Let_def split: if_splits)
  moreover from Cons.IH [of sp1 pv1 q1]
  obtain sp' pv' ps where "fold (relax_D graph from) ts (sp1, pv1, q1) = (sp', pv', q1 @ ps)"
    by blast
  ultimately show ?case using step by auto
qed

lemma skip_rounds_cases:
  assumes "n \<in> set (fst vq # snd vq)"
  shows "skip_rounds n z vq = Round_limit \<or>
         (\<exists>v' z' q'. skip_rounds n z vq = Next_node v' z' q' \<and> n \<in> set q' \<and>
            ((z' = z \<and> v' = fst vq \<and> q' = snd vq \<and> fst vq \<noteq> n) \<or> (z < z' \<and> z \<le> n)))"
  using assms
proof (induction n z vq rule: skip_rounds.induct)
  case (1 n z v q)
  show ?case
  proof (cases "v = n")
    case False
    with "1.prems" show ?thesis by simp
  next
    case True
    show ?thesis
    proof (cases "n < z")
      case True
      with \<open>v = n\<close> show ?thesis by simp
    next
      case False
      have "n \<in> set (fst (QueueGet (q @ [n])) # snd (QueueGet (q @ [n])))"
        by (cases q) (simp_all add: QueueGet_def)
      from "1.IH" [OF \<open>v = n\<close> False this] \<open>v = n\<close> False
      show ?thesis by auto
    qed
  qed
qed

lemma worklist_D_stops:
  assumes "n \<in> set (snd zq)"
  shows "\<exists>sp' pv'. worklist_D graph n sp pv (fst zq) (snd zq) = Some (sp', pv', True)"
  using assms
proof (induction zq arbitrary: sp pv
    rule: wf_induct_rule [OF wf_measures
      [of "[\<lambda>zq. Suc (Suc n) - fst zq, \<lambda>zq. nodes_before_marker n (snd zq)]"]])
  case (1 zq)
  obtain z q where zq: "zq = (z, q)" by (cases zq)
  with "1.prems" obtain v q0 where q: "q = v # q0" by (cases q) auto
  have mem: "n \<in> set (fst (v, q0) # snd (v, q0))" using "1.prems" zq q by simp
  from skip_rounds_cases [OF mem, of z]
  show ?case
  proof
    assume "skip_rounds n z (v, q0) = Round_limit"
    then show ?thesis using zq q
      by (subst worklist_D.simps) (simp add: QueueGet_def)
  next
    assume "\<exists>v' z' q'. skip_rounds n z (v, q0) = Next_node v' z' q' \<and> n \<in> set q' \<and>
            ((z' = z \<and> v' = fst (v, q0) \<and> q' = snd (v, q0) \<and> fst (v, q0) \<noteq> n) \<or> (z < z' \<and> z \<le> n))"
    then obtain v' z' q' where next_node: "skip_rounds n z (v, q0) = Next_node v' z' q'"
      and marker: "n \<in> set q'"
      and progress: "(z' = z \<and> v' = v \<and> q' = q0 \<and> v \<noteq> n) \<or> (z < z' \<and> z \<le> n)"
      by auto
    obtain sp1 pv1 ps where relaxed:
      "fold (relax_D graph v') [0..<length (Nodes graph)] (sp, pv, q') = (sp1, pv1, q' @ ps)"
      using relax_D_appends by blast
    have smaller: "((z', q' @ ps), zq) \<in>
        measures [\<lambda>zq. Suc (Suc n) - fst zq, \<lambda>zq. nodes_before_marker n (snd zq)]"
      using progress
    proof
      assume same: "z' = z \<and> v' = v \<and> q' = q0 \<and> v \<noteq> n"
      then show ?thesis using marker zq q
        by (simp add: nodes_before_marker_def takeWhile_append1)
    next
      assume "z < z' \<and> z \<le> n"
      then have "Suc (Suc n) - z' < Suc (Suc n) - z" by arith
      then show ?thesis using zq by simp
    qed
    have "n \<in> set (snd (z', q' @ ps))" using marker by simp
    from "1.IH" [OF smaller this, of sp1 pv1]
    obtain sp' pv' where "worklist_D graph n sp1 pv1 z' (q' @ ps) = Some (sp', pv', True)"
      by auto
    then show ?thesis using zq q next_node relaxed
      by (subst worklist_D.simps) (simp add: QueueGet_def)
  qed
qed

text \<open>
  C10. For every graph and every source index below the node count, \<open>FindPathOnly\<close>
  terminates, and it does so through the round bound: the work list loop ends at
  line 158-159 (the third component \<open>True\<close>), never with an empty queue, and the
  engine is solved afterwards. This holds with or without negative cycles.
\<close>

theorem find_path_only_terminates:
  assumes "square_matrix graph" and "start < length (Nodes graph)"
  shows "\<exists>sp pv.
           worklist_D graph (length (Nodes graph))
             ((resize (length (Nodes graph)) INF_val (shortestPath e))[start := 0])
             (resize (length (Nodes graph)) (- 1) (previousVertex e))
             0 [start, length (Nodes graph)] = Some (sp, pv, True) \<and>
           FindPathOnly graph start e =
             Some \<lparr>shortestPath = sp, previousVertex = pv, solved = True\<rparr>"
proof -
  let ?n = "length (Nodes graph)"
  have "?n \<in> set (snd (0::nat, [start, ?n]))" by simp
  from worklist_D_stops [OF this]
  obtain sp pv where "worklist_D graph ?n
      ((resize ?n INF_val (shortestPath e))[start := 0]) (resize ?n (- 1) (previousVertex e))
      0 [start, ?n] = Some (sp, pv, True)"
    by fastforce
  then show ?thesis by (simp add: FindPathOnly_def Let_def)
qed

theorem find_path_only_terminates_witness:
  "\<exists>sp pv.
     worklist_D two_cycle (length (Nodes two_cycle))
       ((resize (length (Nodes two_cycle)) INF_val (shortestPath new_engine))[0 := 0])
       (resize (length (Nodes two_cycle)) (- 1) (previousVertex new_engine))
       0 [0, length (Nodes two_cycle)] = Some (sp, pv, True) \<and>
     FindPathOnly two_cycle 0 new_engine =
       Some \<lparr>shortestPath = sp, previousVertex = pv, solved = True\<rparr>"
proof -
  have "square_matrix two_cycle" by code_simp
  moreover have "0 < length (Nodes two_cycle)" by code_simp
  ultimately show ?thesis by (rule find_path_only_terminates)
qed

text \<open>What every relaxation step preserves, the whole work list loop preserves.\<close>

lemma worklist_D_preserves:
  assumes "worklist_D graph n sp pv z q = Some r"
    and step: "\<And>g u v st. P (fst st, fst (snd st)) \<Longrightarrow>
                 P (fst (relax_D g u v st), fst (snd (relax_D g u v st)))"
  shows "P (sp, pv) \<longrightarrow> P (fst r, fst (snd r))"
proof (rule worklist_D.raw_induct [OF _ assms(1)])
  fix f :: "Graph \<Rightarrow> nat \<Rightarrow> real list \<Rightarrow> int list \<Rightarrow> nat \<Rightarrow> nat list
              \<Rightarrow> (real list \<times> int list \<times> bool) option"
    and g n sp pv z q r
  assume IH: "\<And>g n sp pv z q r. f g n sp pv z q = Some r \<Longrightarrow>
                P (sp, pv) \<longrightarrow> P (fst r, fst (snd r))"
    and unfolded: "(if q = [] then Some (sp, pv, False)
         else case skip_rounds n z (QueueGet q) of
           Round_limit \<Rightarrow> Some (sp, pv, True)
         | Next_node u z' q' \<Rightarrow>
             (case fold (relax_D g u) [0..<length (Nodes g)] (sp, pv, q') of
                (sp', pv', q'') \<Rightarrow> f g n sp' pv' z' q'')) = Some r"
  show "P (sp, pv) \<longrightarrow> P (fst r, fst (snd r))"
  proof
    assume holds: "P (sp, pv)"
    show "P (fst r, fst (snd r))"
    proof (cases "q = []")
      case True
      with unfolded holds show ?thesis by auto
    next
      case False
      show ?thesis
      proof (cases "skip_rounds n z (QueueGet q)")
        case Round_limit
        with unfolded False holds show ?thesis by auto
      next
        case (Next_node u z' q')
        let ?st = "fold (relax_D g u) [0..<length (Nodes g)] (sp, pv, q')"
        obtain sp' pv' q'' where relaxed: "?st = (sp', pv', q'')" by (cases ?st) auto
        have "P (fst ?st, fst (snd ?st))"
          by (rule fold_preserves [where P = "\<lambda>st. P (fst st, fst (snd st))"])
             (use holds in \<open>simp_all add: step\<close>)
        then have "P (sp', pv')" using relaxed by simp
        moreover have "f g n sp' pv' z' q'' = Some r"
          using unfolded False Next_node relaxed by simp
        ultimately show ?thesis using IH by blast
      qed
    qed
  qed
qed

section \<open>Reconstructing the path from the source to itself\<close>

text \<open>On a predecessor array whose entries are all node indices, the loop of line 262
  finds no sentinel and does not end.\<close>

lemma walk_back_closed_array:
  assumes "walk_back pv a lst = Some y"
  shows "list_all (\<lambda>p. 0 \<le> p \<and> nat p < length pv) pv \<longrightarrow> a < length pv \<longrightarrow> False"
proof (rule walk_back.raw_induct [OF _ assms])
  fix f :: "int list \<Rightarrow> nat \<Rightarrow> nat list \<Rightarrow> nat list option" and pv a lst y
  assume IH: "\<And>pv a lst y. f pv a lst = Some y \<Longrightarrow>
                list_all (\<lambda>p. 0 \<le> p \<and> nat p < length pv) pv \<longrightarrow> a < length pv \<longrightarrow> False"
    and unfolded: "(if pv ! a \<noteq> - 1 \<and> pv ! a \<noteq> - 2
                    then f pv (nat (pv ! a)) (lst @ [a]) else Some lst) = Some y"
  show "list_all (\<lambda>p. 0 \<le> p \<and> nat p < length pv) pv \<longrightarrow> a < length pv \<longrightarrow> False"
  proof (intro impI)
    assume closed: "list_all (\<lambda>p. 0 \<le> p \<and> nat p < length pv) pv" and a: "a < length pv"
    then have entry: "0 \<le> pv ! a \<and> nat (pv ! a) < length pv"
      by (simp add: list_all_length)
    with unfolded have "f pv (nat (pv ! a)) (lst @ [a]) = Some y" by simp
    from IH [OF this] closed entry show False by simp
  qed
qed

text \<open>The claim C7 as stated fails in two ways. \<open>FindPathOnly\<close> on a negative cycle
  through the source ends solved with the source's distance \<open>-2\<close>, not \<open>NEG_INF\<close>, and
  with a cyclic predecessor chain. \<open>ContainsNegativeCycles_Sedgewick\<close> does the same
  on \<open>rounding_loop\<close>, which has no negative cycle: the sums \<open>0 + 3/4\<close> are cut to 0, so
  the way round costs \<open>-1\<close>. In both cases \<open>ReconstructShortestPath\<close> from the source
  to itself does not return.\<close>

theorem reconstruct_source_diverges:
  "FindPathOnly two_cycle 0 new_engine =
     Some \<lparr>shortestPath = [- 2, 0], previousVertex = [1, 0], solved = True\<rparr> \<and>
   ReconstructShortestPath two_cycle
     \<lparr>shortestPath = [- 2, 0], previousVertex = [1, 0], solved = True\<rparr> 0 0 = None \<and>
   ContainsNegativeCycles_Sedgewick rounding_loop 0 new_engine =
     (False, \<lparr>shortestPath = [- 1, 0, 0], previousVertex = [2, 0, 1], solved = True\<rparr>) \<and>
   ReconstructShortestPath rounding_loop
     \<lparr>shortestPath = [- 1, 0, 0], previousVertex = [2, 0, 1], solved = True\<rparr> 0 0 = None"
proof -
  have "walk_back [1, 0] 0 [] = None"
    using walk_back_closed_array [of "[1, 0]" 0 "[]"] by (cases "walk_back [1, 0] 0 []") auto
  then have "ReconstructShortestPath two_cycle
     \<lparr>shortestPath = [- 2, 0], previousVertex = [1, 0], solved = True\<rparr> 0 0 = None"
    by (simp add: ReconstructShortestPath_def NEG_INF_def)
  moreover have "walk_back [2, 0, 1] 0 [] = None"
    using walk_back_closed_array [of "[2, 0, 1]" 0 "[]"]
    by (cases "walk_back [2, 0, 1] 0 []") auto
  then have "ReconstructShortestPath rounding_loop
     \<lparr>shortestPath = [- 1, 0, 0], previousVertex = [2, 0, 1], solved = True\<rparr> 0 0 = None"
    by (simp add: ReconstructShortestPath_def NEG_INF_def)
  moreover have "FindPathOnly two_cycle 0 new_engine =
     Some \<lparr>shortestPath = [- 2, 0], previousVertex = [1, 0], solved = True\<rparr>"
    by code_simp
  moreover have "ContainsNegativeCycles_Sedgewick rounding_loop 0 new_engine =
     (False, \<lparr>shortestPath = [- 1, 0, 0], previousVertex = [2, 0, 1], solved = True\<rparr>)"
    by code_simp
  ultimately show ?thesis by simp
qed

text \<open>Every relaxation lowers the distance it writes, so the source's distance stays at
  most 0, and is 0 only while its predecessor is untouched.\<close>

lemma source_kept_update:
  "source_kept s (sp, pv) \<Longrightarrow> x < sp ! t \<Longrightarrow> source_kept s (sp[t := x], pv[t := y])"
  by (cases "t = s") (auto simp: source_kept_def)

lemma source_kept_mark:
  "source_kept s (sp, pv) \<Longrightarrow> x < 0 \<Longrightarrow> source_kept s (sp[t := x], pv[t := y])"
  by (cases "t = s") (auto simp: source_kept_def)

lemma source_kept_start:
  "s < n \<Longrightarrow> source_kept s ((resize n INF_val [])[s := 0], resize n (- 1) [])"
  by (simp add: source_kept_def resize_def)

lemma relax_A_kept:
  "source_kept s (snd st) \<Longrightarrow> source_kept s (snd (relax_A graph u v st))"
  by (cases st) (auto simp: relax_A_def intro: source_kept_update)

lemma pass_A_kept:
  "source_kept s (snd st) \<Longrightarrow> source_kept s (snd (pass_A graph n st))"
  unfolding pass_A_def
  by (intro fold_preserves [where P = "\<lambda>st. source_kept s (snd st)"] relax_A_kept)

lemma passes_A_kept:
  "source_kept s (snd st) \<Longrightarrow> source_kept s (snd (passes_A graph n k st))"
proof (induction graph n k st rule: passes_A.induct)
  case (1 graph n st)
  then show ?case by simp
next
  case (2 graph n k updated sp pv)
  have "source_kept s (snd (pass_A graph n (False, sp, pv)))"
    using "2.prems" by (intro pass_A_kept) simp
  with "2.IH" show ?case by (simp add: Let_def)
qed

lemma ContainsNegativeCycles_kept:
  assumes "s < length (Nodes graph)"
    and "e' = snd (ContainsNegativeCycles graph s new_engine)"
  shows "source_kept s (shortestPath e', previousVertex e')"
proof -
  let ?n = "length (Nodes graph)"
  let ?st = "passes_A graph ?n (?n - 1) (False, (resize ?n INF_val [])[s := 0], resize ?n (- 1) [])"
  have "source_kept s (snd ?st)"
    using source_kept_start [OF assms(1)] by (intro passes_A_kept) simp
  then show ?thesis using assms(2)
    by (cases ?st) (auto simp: ContainsNegativeCycles_def new_engine_def Let_def)
qed

lemma relax_B_kept:
  "source_kept s (snd st) \<Longrightarrow> source_kept s (snd (relax_B graph start u v st))"
  by (cases st) (auto simp: relax_B_def Let_def intro: source_kept_update)

lemma pass_B_kept:
  "source_kept s (snd st) \<Longrightarrow> source_kept s (snd (pass_B graph n start st))"
  unfolding pass_B_def
  by (intro fold_preserves [where P = "\<lambda>st. source_kept s (snd st)"] relax_B_kept)

lemma rounds_B_kept:
  "source_kept s (snd st) \<Longrightarrow> source_kept s (snd (snd (rounds_B graph n start i k st)))"
proof (induction graph n start i k st rule: rounds_B.induct)
  case (1 graph n start i st)
  then show ?case by simp
next
  case (2 graph n start i k updated sp pv)
  have "source_kept s (snd (pass_B graph n start (False, sp, pv)))"
    using "2.prems" by (intro pass_B_kept) simp
  with "2.IH" show ?case by (simp add: Let_def)
qed

lemma Sedgewick_kept:
  assumes "s < length (Nodes graph)"
    and "e' = snd (ContainsNegativeCycles_Sedgewick graph s new_engine)"
  shows "source_kept s (shortestPath e', previousVertex e')"
proof -
  let ?n = "length (Nodes graph)"
  let ?r = "rounds_B graph ?n s 0 ?n (False, (resize ?n INF_val [])[s := 0], resize ?n (- 1) [])"
  have "source_kept s (snd (snd ?r))"
    using source_kept_start [OF assms(1)] by (intro rounds_B_kept) simp
  then show ?thesis using assms(2)
    by (cases ?r) (auto simp: ContainsNegativeCycles_Sedgewick_def new_engine_def Let_def)
qed

lemma relax_C_kept:
  "source_kept s st \<Longrightarrow> source_kept s (relax_C graph u v st)"
  by (cases st) (auto simp: relax_C_def intro: source_kept_update)

lemma pass_C_kept:
  "source_kept s st \<Longrightarrow> source_kept s (pass_C graph n st)"
  unfolding pass_C_def
  by (intro fold_preserves [where P = "source_kept s"] relax_C_kept)

lemma mark_C_kept:
  "source_kept s (snd st) \<Longrightarrow> source_kept s (snd (mark_C graph u v st))"
  by (cases st) (auto simp: mark_C_def NEG_INF_def intro: source_kept_mark)

lemma mark_pass_C_kept:
  "source_kept s (snd st) \<Longrightarrow> source_kept s (snd (mark_pass_C graph n st))"
  unfolding mark_pass_C_def
  by (intro fold_preserves [where P = "\<lambda>st. source_kept s (snd st)"] mark_C_kept)

lemma FindPathsAndNegativeCycles_kept:
  assumes "s < length (Nodes graph)"
    and "e' = snd (FindPathsAndNegativeCycles graph s new_engine)"
  shows "source_kept s (shortestPath e', previousVertex e')"
proof -
  let ?n = "length (Nodes graph)"
  let ?st1 = "fold (\<lambda>k. pass_C graph ?n) [0..<?n - 1]
                ((resize ?n INF_val [])[s := 0], resize ?n (- 1) [])"
  let ?st2 = "fold (\<lambda>k. mark_pass_C graph ?n) [0..<?n - 1] (False, ?st1)"
  have "source_kept s ?st1"
    using source_kept_start [OF assms(1)]
    by (intro fold_preserves [where P = "source_kept s"] pass_C_kept)
  then have "source_kept s (snd (False, ?st1))" by simp
  then have "source_kept s (snd ?st2)"
    by (intro fold_preserves [where P = "\<lambda>st. source_kept s (snd st)"] mark_pass_C_kept)
  then show ?thesis using assms(2)
    by (cases ?st2) (auto simp: FindPathsAndNegativeCycles_def new_engine_def Let_def)
qed

lemma relax_D_kept:
  "source_kept s (fst st, fst (snd st)) \<Longrightarrow>
   source_kept s (fst (relax_D graph u v st), fst (snd (relax_D graph u v st)))"
  by (cases st) (auto simp: relax_D_def Let_def intro: source_kept_update)

lemma FindPathOnly_kept:
  assumes "s < length (Nodes graph)"
    and "FindPathOnly graph s new_engine = Some e'"
  shows "source_kept s (shortestPath e', previousVertex e')"
proof -
  let ?n = "length (Nodes graph)"
  from assms(2) obtain r where
    r: "worklist_D graph ?n ((resize ?n INF_val [])[s := 0]) (resize ?n (- 1) []) 0 [s, ?n] = Some r"
    and e': "e' = \<lparr>shortestPath = fst r, previousVertex = fst (snd r), solved = snd (snd r)\<rparr>"
    by (auto simp: FindPathOnly_def new_engine_def Let_def split: option.splits)
  have "source_kept s ((resize ?n INF_val [])[s := 0], resize ?n (- 1) []) \<longrightarrow>
        source_kept s (fst r, fst (snd r))"
    using r by (rule worklist_D_preserves) (rule relax_D_kept)
  with source_kept_start [OF assms(1)] show ?thesis using e' by simp
qed

text \<open>
  C7 (amended). For every graph, every source \<open>s\<close> and every strategy run on a fresh
  engine that ends with \<open>solved\<close> true and \<open>distance[s] = 0\<close> (the source's own distance
  was never lowered), \<open>ReconstructShortestPath(graph, s, s)\<close> returns exactly \<open>[s]\<close>.
\<close>

theorem reconstruct_source_alone:
  assumes "square_matrix graph" and "s < length (Nodes graph)"
    and "e' = snd (ContainsNegativeCycles graph s new_engine) \<or>
         e' = snd (ContainsNegativeCycles_Sedgewick graph s new_engine) \<or>
         e' = snd (FindPathsAndNegativeCycles graph s new_engine) \<or>
         FindPathOnly graph s new_engine = Some e'"
    and "solved e'" and "shortestPath e' ! s = 0"
  shows "ReconstructShortestPath graph e' s s =
           Some (Path_line s s [(s, Name (Nodes graph ! s))], [s])"
proof -
  have "source_kept s (shortestPath e', previousVertex e')"
    using assms(3)
  proof (elim disjE)
    assume "e' = snd (ContainsNegativeCycles graph s new_engine)"
    then show ?thesis by (rule ContainsNegativeCycles_kept [OF assms(2)])
  next
    assume "e' = snd (ContainsNegativeCycles_Sedgewick graph s new_engine)"
    then show ?thesis by (rule Sedgewick_kept [OF assms(2)])
  next
    assume "e' = snd (FindPathsAndNegativeCycles graph s new_engine)"
    then show ?thesis by (rule FindPathsAndNegativeCycles_kept [OF assms(2)])
  next
    assume "FindPathOnly graph s new_engine = Some e'"
    then show ?thesis by (rule FindPathOnly_kept [OF assms(2)])
  qed
  then have "previousVertex e' ! s = - 1"
    using assms(5) by (simp add: source_kept_def)
  then have "walk_back (previousVertex e') s [] = Some []"
    by (subst walk_back.simps) simp
  then show ?thesis using assms(4,5)
    by (simp add: ReconstructShortestPath_def NEG_INF_def)
qed

theorem reconstruct_source_alone_witness:
  "ReconstructShortestPath currency_graph (the (FindPathOnly currency_graph 0 new_engine)) 0 0 =
     Some (Path_line 0 0 [(0, ''USD'')], [0])"
proof -
  have run: "FindPathOnly currency_graph 0 new_engine =
      Some \<lparr>shortestPath = [0, 2, 7, - 2, 4], previousVertex = [- 1, 4, 0, 1, 2], solved = True\<rparr>"
    by code_simp
  have 1: "square_matrix currency_graph" by code_simp
  have 2: "0 < length (Nodes currency_graph)" by code_simp
  have 3: "Name (Nodes currency_graph ! 0) = ''USD''" by code_simp
  from reconstruct_source_alone [OF 1 2, of "\<lparr>shortestPath = [0, 2, 7, - 2, 4], previousVertex = [- 1, 4, 0, 1, 2], solved = True\<rparr>"] run 3
  show ?thesis by simp
qed

section \<open>Running a strategy twice on one engine\<close>

text \<open>The claim C9 as stated fails when the second run uses the engine of the first:
  \<open>resize\<close> keeps the entries that are there, so only \<open>distance[start]\<close> is reset and the
  second run goes on from the first run's arrays. On \<open>tail_cycle\<close> the first run of
  \<open>ContainsNegativeCycles\<close> ends with distances \<open>[0, -3, -2]\<close>, the second with
  \<open>[0, -7, -6]\<close>.\<close>

theorem second_run_continues:
  "ContainsNegativeCycles tail_cycle 0 new_engine =
     (True, \<lparr>shortestPath = [0, - 3, - 2], previousVertex = [- 1, 2, 1], solved = False\<rparr>) \<and>
   ContainsNegativeCycles tail_cycle 0
     \<lparr>shortestPath = [0, - 3, - 2], previousVertex = [- 1, 2, 1], solved = False\<rparr> =
     (True, \<lparr>shortestPath = [0, - 7, - 6], previousVertex = [- 1, 2, 1], solved = False\<rparr>)"
  by code_simp

subsection \<open>ContainsNegativeCycles\<close>

lemma relax_A_sticky: "fst st \<Longrightarrow> fst (relax_A graph u v st)"
  by (cases st) (simp add: relax_A_def)

lemma relax_A_quiet: "\<not> fst (relax_A graph u v st) \<Longrightarrow> relax_A graph u v st = st"
  by (cases st) (simp add: relax_A_def split: if_splits)

lemma pass_A_quiet:
  assumes "\<not> fst (pass_A graph n st)"
  shows "pass_A graph n st = st \<and> (\<forall>u<n. \<forall>v<n. relax_A graph u v st = st)"
  using flag_pass_quiet [of "relax_A graph" "[0..<n]" "[0..<n]" st, OF relax_A_sticky relax_A_quiet]
    assms by (simp add: pass_A_def)

lemma pass_A_quiet_settled:
  assumes "\<not> fst (pass_A graph n (False, sp, pv))"
  shows "\<not> improvable_A graph n sp"
proof -
  have "\<not> sp ! v > sp ! u + Matrix graph ! u ! v" if "u < n" "v < n" for u v
  proof -
    from pass_A_quiet [OF assms] that
    have "relax_A graph u v (False, sp, pv) = (False, sp, pv)" by simp
    then show ?thesis by (auto simp: relax_A_def split: if_splits)
  qed
  then show ?thesis by (auto simp: improvable_A_def list_ex_iff)
qed

lemma settled_pass_A:
  assumes "\<not> improvable_A graph n sp"
  shows "pass_A graph n (b, sp, pv) = (b, sp, pv)"
  unfolding pass_A_def
proof (intro fold_fixed)
  fix u v assume "u \<in> set [0..<n]" "v \<in> set [0..<n]"
  with assms have "\<not> sp ! v > sp ! u + Matrix graph ! u ! v"
    by (auto simp: improvable_A_def list_ex_iff)
  then show "relax_A graph u v (b, sp, pv) = (b, sp, pv)"
    by (simp add: relax_A_def)
qed

lemma passes_A_quiet_settled:
  "passes_A graph n k st0 = (False, sp, pv) \<Longrightarrow> (k = 0 \<longrightarrow> fst st0) \<Longrightarrow>
     \<not> improvable_A graph n sp"
proof (induction graph n k st0 rule: passes_A.induct)
  case (1 graph n st)
  then show ?case by simp
next
  case (2 graph n k updated sp0 pv0)
  let ?st' = "pass_A graph n (False, sp0, pv0)"
  show ?case
  proof (cases "fst ?st'")
    case False
    then have "?st' = (False, sp0, pv0)" using pass_A_quiet by blast
    with "2.prems"(1) False have "sp = sp0" by (simp add: Let_def)
    with pass_A_quiet_settled [OF False] show ?thesis by simp
  next
    case True
    with "2.prems"(1) have "passes_A graph n k ?st' = (False, sp, pv)"
      by (simp add: Let_def)
    moreover have "k = 0 \<longrightarrow> fst ?st'" using True by simp
    ultimately show ?thesis using "2.IH" True by simp
  qed
qed

lemma relax_A_sized: "sized n (snd st) \<Longrightarrow> sized n (snd (relax_A graph u v st))"
  by (cases st) (simp add: relax_A_def sized_def)

lemma pass_A_sized: "sized n (snd st) \<Longrightarrow> sized n (snd (pass_A graph m st))"
  unfolding pass_A_def
  by (intro fold_preserves [where P = "\<lambda>st. sized n (snd st)"] relax_A_sized)

lemma passes_A_sized: "sized n (snd st) \<Longrightarrow> sized n (snd (passes_A graph m k st))"
proof (induction graph m k st rule: passes_A.induct)
  case (1 graph m st)
  then show ?case by simp
next
  case (2 graph m k updated sp pv)
  have "sized n (snd (pass_A graph m (False, sp, pv)))"
    using "2.prems" by (intro pass_A_sized) simp
  with "2.IH" show ?case by (simp add: Let_def)
qed

lemma rerun_A:
  assumes "start < length (Nodes graph)" and "shortestPath e1 ! start = 0"
    and first: "ContainsNegativeCycles graph start e0 = (False, e1)"
  shows "ContainsNegativeCycles graph start e1 = (False, e1)"
proof -
  let ?n = "length (Nodes graph)"
  let ?st0 = "(False, (resize ?n INF_val (shortestPath e0))[start := 0],
                resize ?n (- 1) (previousVertex e0))"
  obtain u sp pv where run: "passes_A graph ?n (?n - 1) ?st0 = (u, sp, pv)"
    by (cases "passes_A graph ?n (?n - 1) ?st0") auto
  with first have e1: "e1 = \<lparr>shortestPath = sp, previousVertex = pv, solved = True\<rparr>"
    and no: "\<not> (u \<and> improvable_A graph ?n sp)"
    by (auto simp: ContainsNegativeCycles_def Let_def split: if_splits)
  have "sized ?n (snd (passes_A graph ?n (?n - 1) ?st0))"
    by (intro passes_A_sized) (simp add: sized_start)
  with run have len: "length sp = ?n" "length pv = ?n" by (simp_all add: sized_def)
  have again: "passes_A graph ?n (?n - 1) (False, sp, pv) = (False, sp, pv)"
  proof (cases "?n - 1")
    case 0
    then show ?thesis by simp
  next
    case (Suc k)
    have "\<not> improvable_A graph ?n sp"
    proof (cases u)
      case True
      with no show ?thesis by simp
    next
      case False
      with run Suc show ?thesis
        by (intro passes_A_quiet_settled [of graph ?n "?n - 1" ?st0 sp pv]) simp_all
    qed
    then have "pass_A graph ?n (False, sp, pv) = (False, sp, pv)" by (rule settled_pass_A)
    then show ?thesis using Suc by (simp add: Let_def)
  qed
  have "sp ! start = 0" using assms(2) e1 by simp
  then have "sp[start := 0] = sp" by (metis list_update_id)
  then show ?thesis using again len e1
    by (simp add: ContainsNegativeCycles_def Let_def resize_same)
qed

subsection \<open>ContainsNegativeCycles_Sedgewick\<close>

lemma relax_B_sticky: "fst st \<Longrightarrow> fst (relax_B graph start u v st)"
  by (cases st) (simp add: relax_B_def Let_def)

lemma relax_B_quiet: "\<not> fst (relax_B graph start u v st) \<Longrightarrow> relax_B graph start u v st = st"
  by (cases st) (auto simp: relax_B_def Let_def split: if_splits)

lemma pass_B_quiet:
  assumes "\<not> fst (pass_B graph n start st)"
  shows "pass_B graph n start st = st"
  using flag_pass_quiet [of "relax_B graph start" "[0..<n]" "[0..<n]" st,
      OF relax_B_sticky relax_B_quiet] assms
  by (simp add: pass_B_def)

lemma rounds_B_last_quiet:
  "rounds_B graph n start i k st0 = (False, u, sp, pv) \<Longrightarrow> i + k = n \<Longrightarrow> 0 < k \<Longrightarrow>
     pass_B graph n start (False, sp, pv) = (False, sp, pv)"
proof (induction graph n start i k st0 rule: rounds_B.induct)
  case (1 graph n start i st)
  then show ?case by simp
next
  case (2 graph n start i k updated sp0 pv0)
  let ?st' = "pass_B graph n start (False, sp0, pv0)"
  from "2.prems"(1) have go_on: "\<not> (i = n - 1 \<and> fst ?st')"
    and rest: "rounds_B graph n start (Suc i) k ?st' = (False, u, sp, pv)"
    by (auto simp: Let_def split: if_splits)
  show ?case
  proof (cases k)
    case 0
    with "2.prems"(2) have "i = n - 1" by simp
    with go_on have "\<not> fst ?st'" by simp
    then have "?st' = (False, sp0, pv0)" by (rule pass_B_quiet)
    moreover from rest 0 have "?st' = (u, sp, pv)" by simp
    ultimately show ?thesis by simp
  next
    case (Suc k')
    with "2.IH" [OF refl go_on rest] "2.prems"(2) show ?thesis by simp
  qed
qed

lemma rounds_B_quiet_run:
  "pass_B graph n start (False, sp, pv) = (False, sp, pv) \<Longrightarrow>
     rounds_B graph n start i k (False, sp, pv) = (False, False, sp, pv)"
  by (induction k arbitrary: i) (simp_all add: Let_def)

lemma relax_B_sized: "sized n (snd st) \<Longrightarrow> sized n (snd (relax_B graph start u v st))"
  by (cases st) (simp add: relax_B_def sized_def Let_def)

lemma pass_B_sized: "sized n (snd st) \<Longrightarrow> sized n (snd (pass_B graph m start st))"
  unfolding pass_B_def
  by (intro fold_preserves [where P = "\<lambda>st. sized n (snd st)"] relax_B_sized)

lemma rounds_B_sized:
  "sized n (snd st) \<Longrightarrow> sized n (snd (snd (rounds_B graph m start i k st)))"
proof (induction graph m start i k st rule: rounds_B.induct)
  case (1 graph m start i st)
  then show ?case by simp
next
  case (2 graph m start i k updated sp pv)
  have "sized n (snd (pass_B graph m start (False, sp, pv)))"
    using "2.prems" by (intro pass_B_sized) simp
  with "2.IH" show ?case by (simp add: Let_def)
qed

lemma rerun_B:
  assumes "start < length (Nodes graph)" and "shortestPath e1 ! start = 0"
    and first: "ContainsNegativeCycles_Sedgewick graph start e0 = (False, e1)"
  shows "ContainsNegativeCycles_Sedgewick graph start e1 = (False, e1)"
proof -
  let ?n = "length (Nodes graph)"
  let ?st0 = "(False, (resize ?n INF_val (shortestPath e0))[start := 0],
                resize ?n (- 1) (previousVertex e0))"
  obtain found u sp pv where run: "rounds_B graph ?n start 0 ?n ?st0 = (found, u, sp, pv)"
    by (cases "rounds_B graph ?n start 0 ?n ?st0") auto
  with first have e1: "e1 = \<lparr>shortestPath = sp, previousVertex = pv, solved = True\<rparr>"
    and "\<not> found"
    by (auto simp: ContainsNegativeCycles_Sedgewick_def Let_def split: if_splits)
  have "sized ?n (snd (snd (rounds_B graph ?n start 0 ?n ?st0)))"
    by (intro rounds_B_sized) (simp add: sized_start)
  with run have len: "length sp = ?n" "length pv = ?n" by (simp_all add: sized_def)
  have "pass_B graph ?n start (False, sp, pv) = (False, sp, pv)"
    using run \<open>\<not> found\<close> assms(1)
    by (intro rounds_B_last_quiet [of graph ?n start 0 ?n ?st0 u sp pv]) auto
  then have again: "rounds_B graph ?n start 0 ?n (False, sp, pv) = (False, False, sp, pv)"
    by (rule rounds_B_quiet_run)
  have "sp ! start = 0" using assms(2) e1 by simp
  then have "sp[start := 0] = sp" by (metis list_update_id)
  then show ?thesis using again len e1
    by (simp add: ContainsNegativeCycles_Sedgewick_def Let_def resize_same)
qed

subsection \<open>FindPathsAndNegativeCycles\<close>

lemma mark_C_sticky: "fst st \<Longrightarrow> fst (mark_C graph u v st)"
  by (cases st) (simp add: mark_C_def)

lemma mark_C_quiet: "\<not> fst (mark_C graph u v st) \<Longrightarrow> mark_C graph u v st = st"
  by (cases st) (auto simp: mark_C_def split: if_splits)

lemma mark_pass_C_sticky: "fst st \<Longrightarrow> fst (mark_pass_C graph n st)"
  unfolding mark_pass_C_def by (rule flag_pass_sticky) (rule mark_C_sticky)

lemma mark_pass_C_quiet:
  assumes "\<not> fst (mark_pass_C graph n st)"
  shows "mark_pass_C graph n st = st \<and> (\<forall>u<n. \<forall>v<n. mark_C graph u v st = st)"
  using flag_pass_quiet [of "mark_C graph" "[0..<n]" "[0..<n]" st, OF mark_C_sticky mark_C_quiet]
    assms by (simp add: mark_pass_C_def)

lemma mark_pass_C_quiet_settled:
  assumes "\<not> fst (mark_pass_C graph n (False, sp, pv))"
  shows "settled graph n sp"
proof -
  have "Matrix graph ! u ! v = INF_val \<or> \<not> sp ! v > sp ! u + Matrix graph ! u ! v"
    if "u < n" "v < n" for u v
  proof -
    from mark_pass_C_quiet [OF assms] that
    have "mark_C graph u v (False, sp, pv) = (False, sp, pv)" by simp
    then show ?thesis by (auto simp: mark_C_def split: if_splits)
  qed
  then show ?thesis by (auto simp: settled_def list_all_iff)
qed

lemma settled_step:
  assumes "settled graph n sp" and "u < n" and "v < n"
  shows "Matrix graph ! u ! v = INF_val \<or> \<not> sp ! v > sp ! u + Matrix graph ! u ! v"
  using assms by (auto simp: settled_def list_all_iff)

lemma settled_pass_C:
  assumes "settled graph n sp"
  shows "pass_C graph n (sp, pv) = (sp, pv)"
  unfolding pass_C_def
proof (intro fold_fixed)
  fix u v assume "u \<in> set [0..<n]" "v \<in> set [0..<n]"
  with settled_step [OF assms, of u v]
  show "relax_C graph u v (sp, pv) = (sp, pv)"
    by (auto simp: relax_C_def)
qed

lemma settled_mark_pass_C:
  assumes "settled graph n sp"
  shows "mark_pass_C graph n (b, sp, pv) = (b, sp, pv)"
  unfolding mark_pass_C_def
proof (intro fold_fixed)
  fix u v assume "u \<in> set [0..<n]" "v \<in> set [0..<n]"
  with settled_step [OF assms, of u v]
  show "mark_C graph u v (b, sp, pv) = (b, sp, pv)"
    by (auto simp: mark_C_def)
qed

lemma relax_C_sized: "sized n st \<Longrightarrow> sized n (relax_C graph u v st)"
  by (cases st) (simp add: relax_C_def sized_def)

lemma pass_C_sized: "sized n st \<Longrightarrow> sized n (pass_C graph m st)"
  unfolding pass_C_def
  by (intro fold_preserves [where P = "sized n"] relax_C_sized)

lemma mark_C_sized: "sized n (snd st) \<Longrightarrow> sized n (snd (mark_C graph u v st))"
  by (cases st) (simp add: mark_C_def sized_def)

lemma mark_pass_C_sized: "sized n (snd st) \<Longrightarrow> sized n (snd (mark_pass_C graph m st))"
  unfolding mark_pass_C_def
  by (intro fold_preserves [where P = "\<lambda>st. sized n (snd st)"] mark_C_sized)

lemma rerun_C:
  assumes "start < length (Nodes graph)" and "shortestPath e1 ! start = 0"
    and first: "FindPathsAndNegativeCycles graph start e0 = (False, e1)"
  shows "FindPathsAndNegativeCycles graph start e1 = (False, e1)"
proof -
  let ?n = "length (Nodes graph)"
  let ?st1 = "fold (\<lambda>k. pass_C graph ?n) [0..<?n - 1]
                ((resize ?n INF_val (shortestPath e0))[start := 0],
                 resize ?n (- 1) (previousVertex e0))"
  let ?st2 = "fold (\<lambda>k. mark_pass_C graph ?n) [0..<?n - 1] (False, ?st1)"
  obtain neg sp pv where run: "?st2 = (neg, sp, pv)" by (cases ?st2) auto
  with first have e1: "e1 = \<lparr>shortestPath = sp, previousVertex = pv, solved = True\<rparr>"
    and "\<not> neg"
    by (auto simp: FindPathsAndNegativeCycles_def Let_def)
  then have unset: "\<not> fst ?st2" using run by simp
  have quiet: "?st2 = (False, ?st1) \<and>
        (\<forall>k\<in>set [0..<?n - 1]. mark_pass_C graph ?n (False, ?st1) = (False, ?st1))"
  proof (rule flag_fold_quiet)
    show "fst st \<Longrightarrow> fst (mark_pass_C graph ?n st)" for st by (rule mark_pass_C_sticky)
    show "\<not> fst (mark_pass_C graph ?n st) \<Longrightarrow> mark_pass_C graph ?n st = st" for st
      using mark_pass_C_quiet by blast
    show "\<not> fst ?st2" by (rule unset)
  qed
  with run have st1: "?st1 = (sp, pv)" by simp
  have "sized ?n ?st1"
    by (intro fold_preserves [where P = "sized ?n"] pass_C_sized sized_start)
  with st1 have len: "length sp = ?n" "length pv = ?n" by (simp_all add: sized_def)
  have settled_if: "settled graph ?n sp" if "k \<in> set [0..<?n - 1]" for k
  proof -
    from quiet that have "mark_pass_C graph ?n (False, ?st1) = (False, ?st1)" by blast
    with st1 have "mark_pass_C graph ?n (False, sp, pv) = (False, sp, pv)" by simp
    then have "\<not> fst (mark_pass_C graph ?n (False, sp, pv))" by simp
    then show ?thesis by (rule mark_pass_C_quiet_settled)
  qed
  have again1: "fold (\<lambda>k. pass_C graph ?n) [0..<?n - 1] (sp, pv) = (sp, pv)"
    by (intro fold_fixed settled_pass_C settled_if)
  have again2: "fold (\<lambda>k. mark_pass_C graph ?n) [0..<?n - 1] (False, sp, pv) = (False, sp, pv)"
    by (intro fold_fixed settled_mark_pass_C settled_if)
  have "sp ! start = 0" using assms(2) e1 by simp
  then have "sp[start := 0] = sp" by (metis list_update_id)
  then show ?thesis using again1 again2 len e1
    by (simp add: FindPathsAndNegativeCycles_def Let_def resize_same)
qed

subsection \<open>FindPathOnly\<close>

lemma settled_relax_D:
  assumes "settled graph n sp" and "u < n"
  shows "fold (relax_D graph u) [0..<n] (sp, pv, q) = (sp, pv, q)"
proof (intro fold_fixed)
  fix v assume "v \<in> set [0..<n]"
  with settled_step [OF assms, of v]
  show "relax_D graph u v (sp, pv, q) = (sp, pv, q)"
    by (auto simp: relax_D_def Let_def)
qed

lemma skip_rounds_marker_only:
  "vq = (n, []) \<Longrightarrow> skip_rounds n z vq = Round_limit"
proof (induction n z vq rule: skip_rounds.induct)
  case (1 n z v q)
  then show ?case by (simp add: QueueGet_def)
qed

lemma relax_D_sized:
  "sized n (fst st, fst (snd st)) \<Longrightarrow>
   sized n (fst (relax_D graph u v st), fst (snd (relax_D graph u v st)))"
  by (cases st) (simp add: relax_D_def Let_def sized_def)

lemma rerun_D:
  assumes "start < length (Nodes graph)" and "shortestPath e1 ! start = 0"
    and first: "FindPathOnly graph start e0 = Some e1"
    and stable: "settled graph (length (Nodes graph)) (shortestPath e1)"
  shows "FindPathOnly graph start e1 = Some e1"
proof -
  let ?n = "length (Nodes graph)"
  let ?sp0 = "(resize ?n INF_val (shortestPath e0))[start := 0]"
  let ?pv0 = "resize ?n (- 1) (previousVertex e0)"
  have "?n \<in> set (snd (0::nat, [start, ?n]))" by simp
  from worklist_D_stops [OF this, of graph ?sp0 ?pv0]
  obtain sp pv where run: "worklist_D graph ?n ?sp0 ?pv0 0 [start, ?n] = Some (sp, pv, True)"
    by auto
  with first have e1: "e1 = \<lparr>shortestPath = sp, previousVertex = pv, solved = True\<rparr>"
    by (simp add: FindPathOnly_def Let_def)
  have "sized ?n (?sp0, ?pv0) \<longrightarrow> sized ?n (fst (sp, pv, True), fst (snd (sp, pv, True)))"
    using run by (rule worklist_D_preserves) (rule relax_D_sized)
  then have len: "length sp = ?n" "length pv = ?n" by (simp_all add: sized_def resize_length)
  have settled_sp: "settled graph ?n sp" using stable e1 by simp
  have "start \<noteq> ?n" using assms(1) by simp
  then have first_pop: "skip_rounds ?n 0 (QueueGet [start, ?n]) = Next_node start 0 [?n]"
    by (simp add: QueueGet_def)
  have second_pop: "skip_rounds ?n 0 (QueueGet [?n]) = Round_limit"
    by (rule skip_rounds_marker_only) (simp add: QueueGet_def)
  have "worklist_D graph ?n sp pv 0 [?n] = Some (sp, pv, True)"
    by (subst worklist_D.simps) (simp add: second_pop)
  then have again: "worklist_D graph ?n sp pv 0 [start, ?n] = Some (sp, pv, True)"
    by (subst worklist_D.simps)
       (simp add: first_pop settled_relax_D [OF settled_sp assms(1)])
  have "sp ! start = 0" using assms(2) e1 by simp
  then have "sp[start := 0] = sp" by (metis list_update_id)
  then show ?thesis using again len e1
    by (simp add: FindPathOnly_def Let_def resize_same)
qed

text \<open>
  C9 (amended). Running a strategy a second time on the same engine, graph and source
  gives back the first run's engine state (distance and predecessor arrays, solved
  flag) and the same answer, provided the first run left \<open>distance[start] = 0\<close> and
  ended settled: for \<open>ContainsNegativeCycles\<close>, \<open>ContainsNegativeCycles_Sedgewick\<close> and
  \<open>FindPathsAndNegativeCycles\<close>, whenever the first run returned \<open>false\<close>; for
  \<open>FindPathOnly\<close>, whenever no edge admits improvement in its result.
\<close>

theorem rerun_after_settled_run:
  assumes "square_matrix graph" and "start < length (Nodes graph)"
    and "shortestPath e1 ! start = 0"
  shows "(ContainsNegativeCycles graph start e0 = (False, e1) \<longrightarrow>
            ContainsNegativeCycles graph start e1 = (False, e1)) \<and>
         (ContainsNegativeCycles_Sedgewick graph start e0 = (False, e1) \<longrightarrow>
            ContainsNegativeCycles_Sedgewick graph start e1 = (False, e1)) \<and>
         (FindPathsAndNegativeCycles graph start e0 = (False, e1) \<longrightarrow>
            FindPathsAndNegativeCycles graph start e1 = (False, e1)) \<and>
         (FindPathOnly graph start e0 = Some e1 \<and>
          settled graph (length (Nodes graph)) (shortestPath e1) \<longrightarrow>
            FindPathOnly graph start e1 = Some e1)"
  using rerun_A [OF assms(2,3)] rerun_B [OF assms(2,3)] rerun_C [OF assms(2,3)]
    rerun_D [OF assms(2,3)]
  by blast

theorem rerun_after_settled_run_witness:
  "ContainsNegativeCycles currency_graph 0
     \<lparr>shortestPath = [0, 2, 7, - 2, 4], previousVertex = [- 1, 4, 0, 1, 2], solved = True\<rparr> =
     (False, \<lparr>shortestPath = [0, 2, 7, - 2, 4], previousVertex = [- 1, 4, 0, 1, 2], solved = True\<rparr>) \<and>
   ContainsNegativeCycles_Sedgewick currency_graph 0
     \<lparr>shortestPath = [0, 2, 7, - 2, 4], previousVertex = [- 1, 4, 0, 1, 2], solved = True\<rparr> =
     (False, \<lparr>shortestPath = [0, 2, 7, - 2, 4], previousVertex = [- 1, 4, 0, 1, 2], solved = True\<rparr>) \<and>
   FindPathsAndNegativeCycles currency_graph 0
     \<lparr>shortestPath = [0, 2, 7, - 2, 4], previousVertex = [- 1, 4, 0, 1, 2], solved = True\<rparr> =
     (False, \<lparr>shortestPath = [0, 2, 7, - 2, 4], previousVertex = [- 1, 4, 0, 1, 2], solved = True\<rparr>) \<and>
   FindPathOnly currency_graph 0
     \<lparr>shortestPath = [0, 2, 7, - 2, 4], previousVertex = [- 1, 4, 0, 1, 2], solved = True\<rparr> =
     Some \<lparr>shortestPath = [0, 2, 7, - 2, 4], previousVertex = [- 1, 4, 0, 1, 2], solved = True\<rparr>"
proof -
  let ?e1 = "\<lparr>shortestPath = [0, 2, 7, - 2, 4], previousVertex = [- 1, 4, 0, 1, 2], solved = True\<rparr>"
  have 1: "square_matrix currency_graph" by code_simp
  have 2: "0 < length (Nodes currency_graph)" by code_simp
  have 3: "shortestPath ?e1 ! 0 = 0" by simp
  have a: "ContainsNegativeCycles currency_graph 0 new_engine = (False, ?e1)" by code_simp
  have b: "ContainsNegativeCycles_Sedgewick currency_graph 0 new_engine = (False, ?e1)"
    by code_simp
  have c: "FindPathsAndNegativeCycles currency_graph 0 new_engine = (False, ?e1)" by code_simp
  have d: "FindPathOnly currency_graph 0 new_engine = Some ?e1" by code_simp
  have s: "settled currency_graph (length (Nodes currency_graph)) (shortestPath ?e1)"
    by code_simp
  from rerun_after_settled_run [OF 1 2 3, of new_engine] a b c d s
  show ?thesis by blast
qed

end
